theory Spec2Isabelle
  imports Main
begin

section \<open>Text as Python sees it\<close>

text \<open>
  A Python \<open>str\<close> is a sequence of Unicode code points. HOL's \<open>char\<close> is a byte, so a
  code point is a natural number here and a string a list of them. \<open>codepoints\<close> turns an
  ASCII literal into such a list, so that inputs can be written readably.
\<close>

type_synonym cp = nat
type_synonym str = "cp list"

definition codepoints :: "string \<Rightarrow> str" where
  "codepoints s = map of_char s"

text \<open>
  The functions of the interpreter and of \<open>unicodedata\<close> that the module calls are decided
  by the Unicode character database, which is no part of the repository. On ASCII text
  their results are fixed and written out below; beyond ASCII they are read from a table
  that every definition takes as the parameter \<open>U\<close>.
\<close>

record unicode_db =
  nfc_tbl :: "str \<Rightarrow> str"
  is_nfc_tbl :: "str \<Rightarrow> bool"
  nfd_tbl :: "str \<Rightarrow> str"
  mn_tbl :: "cp \<Rightarrow> bool"
  isdigit_tbl :: "cp \<Rightarrow> bool"
  isspace_tbl :: "cp \<Rightarrow> bool"
  lower_tbl :: "str \<Rightarrow> str"

definition isascii :: "str \<Rightarrow> bool" where
  "isascii s = list_all (\<lambda>c. c < 128) s"

text \<open>\<open>unicodedata.normalize('NFC', s)\<close>, \<open>unicodedata.is_normalized('NFC', s)\<close> and
  \<open>unicodedata.normalize('NFD', s)\<close>: ASCII text is its own normal form.\<close>

definition normalize_NFC :: "unicode_db \<Rightarrow> str \<Rightarrow> str" where
  "normalize_NFC U s = (if isascii s then s else nfc_tbl U s)"

definition is_normalized_NFC :: "unicode_db \<Rightarrow> str \<Rightarrow> bool" where
  "is_normalized_NFC U s = (if isascii s then True else is_nfc_tbl U s)"

definition normalize_NFD :: "unicode_db \<Rightarrow> str \<Rightarrow> str" where
  "normalize_NFD U s = (if isascii s then s else nfd_tbl U s)"

text \<open>\<open>unicodedata.category(c) == 'Mn'\<close>: no ASCII character is a nonspacing mark.\<close>

definition category_is_Mn :: "unicode_db \<Rightarrow> cp \<Rightarrow> bool" where
  "category_is_Mn U c = (if c < 128 then False else mn_tbl U c)"

text \<open>\<open>c.isdigit()\<close>: among ASCII characters exactly \<open>0\<close> to \<open>9\<close>.\<close>

definition isdigit :: "unicode_db \<Rightarrow> cp \<Rightarrow> bool" where
  "isdigit U c = (if c < 128 then 48 \<le> c \<and> c \<le> 57 else isdigit_tbl U c)"

text \<open>\<open>c.isspace()\<close>, which \<open>str.split()\<close> splits at: among ASCII characters the
  codes 9 to 13, 28 to 31 and 32.\<close>

definition isspace :: "unicode_db \<Rightarrow> cp \<Rightarrow> bool" where
  "isspace U c =
     (if c < 128 then (9 \<le> c \<and> c \<le> 13) \<or> (28 \<le> c \<and> c \<le> 32) else isspace_tbl U c)"

text \<open>\<open>s.lower()\<close>: on ASCII text, \<open>A\<close> to \<open>Z\<close> move to \<open>a\<close> to \<open>z\<close> and nothing else
  changes.\<close>

definition ascii_lower :: "cp \<Rightarrow> cp" where
  "ascii_lower c = (if 65 \<le> c \<and> c \<le> 90 then c + 32 else c)"

definition lower :: "unicode_db \<Rightarrow> str \<Rightarrow> str" where
  "lower U s = (if isascii s then map ascii_lower s else lower_tbl U s)"

text \<open>\<open>string.punctuation\<close> and \<open>string.whitespace\<close>, the two ASCII constants of the
  standard library: \<open>!"#$%&'()*+,-./\<close>, \<open>:;<=>?@\<close>, \<open>[\]^_`\<close>, \<open>{|}~\<close>, and
  space, tab, newline, carriage return, vertical tab, form feed.\<close>

definition string_punctuation :: str where
  "string_punctuation =
     [33, 34, 35, 36, 37, 38, 39, 40, 41, 42, 43, 44, 45, 46, 47,
      58, 59, 60, 61, 62, 63, 64,
      91, 92, 93, 94, 95, 96,
      123, 124, 125, 126]"

definition string_whitespace :: str where
  "string_whitespace = [32, 9, 10, 13, 11, 12]"

text \<open>\<open>s.split(sep)\<close> for a separator of one character: the pieces between the
  separators, empty pieces included, never an empty list.\<close>

fun split_sep :: "cp \<Rightarrow> str \<Rightarrow> str list" where
  "split_sep sep [] = [[]]"
| "split_sep sep (c # cs) =
     (if c = sep then [] # split_sep sep cs
      else (c # hd (split_sep sep cs)) # tl (split_sep sep cs))"

text \<open>\<open>s.split()\<close>: the maximal runs of characters that are not whitespace.\<close>

fun split_ws_loop :: "unicode_db \<Rightarrow> str \<Rightarrow> str \<Rightarrow> str list" where
  "split_ws_loop U cur [] = (if cur = [] then [] else [cur])"
| "split_ws_loop U cur (c # cs) =
     (if isspace U c then (if cur = [] then [] else [cur]) @ split_ws_loop U [] cs
      else split_ws_loop U (cur @ [c]) cs)"

definition split_ws :: "unicode_db \<Rightarrow> str \<Rightarrow> str list" where
  "split_ws U s = split_ws_loop U [] s"

text \<open>\<open>s[1:-1]\<close>: the string without its first and its last character (empty when it has
  fewer than two).\<close>

definition strip_ends :: "str \<Rightarrow> str" where
  "strip_ends s = butlast (tl s)"

section \<open>Regular expressions\<close>

text \<open>
  The two patterns of the module use literals, bracket classes, sequence, a non-capturing
  group and the greedy repetitions \<open>*\<close> and \<open>+\<close>, under three top-level alternatives
  that are each one capturing group. \<open>matches r s\<close> lists what is left of \<open>s\<close> after each
  way \<open>r\<close> can match a prefix of it, in the order a backtracking matcher tries them:
  a greedy repetition tries one more iteration before it stops. The first element is the
  match \<open>re\<close> reports.
\<close>

datatype cset = Range cp cp | Single cp

datatype re =
    Lit cp
  | In "cset list"
  | NotIn "cset list"
  | Seq re re
  | Star re

fun in_cset :: "cp \<Rightarrow> cset \<Rightarrow> bool" where
  "in_cset c (Range lo hi) = (lo \<le> c \<and> c \<le> hi)"
| "in_cset c (Single x) = (c = x)"

definition in_class :: "cset list \<Rightarrow> cp \<Rightarrow> bool" where
  "in_class cl c = list_ex (in_cset c) cl"

fun one_char :: "(cp \<Rightarrow> bool) \<Rightarrow> str \<Rightarrow> str list" where
  "one_char P [] = []"
| "one_char P (c # cs) = (if P c then [cs] else [])"

function matches :: "re \<Rightarrow> str \<Rightarrow> str list" where
  "matches (Lit x) s = one_char (\<lambda>c. c = x) s"
| "matches (In cl) s = one_char (in_class cl) s"
| "matches (NotIn cl) s = one_char (\<lambda>c. \<not> in_class cl c) s"
| "matches (Seq a b) s = concat (map (matches b) (matches a s))"
| "matches (Star a) s =
     concat (map (matches (Star a)) (filter (\<lambda>s'. length s' < length s) (matches a s))) @ [s]"
  by pat_completeness auto
termination
  by (relation "measures [\<lambda>(r, s). size r, \<lambda>(r, s). length s]") auto

text \<open>\<open>r+\<close> is \<open>r\<close> followed by \<open>r*\<close>.\<close>

definition Plus1 :: "re \<Rightarrow> re" where
  "Plus1 r = Seq r (Star r)"

text \<open>A compiled pattern \<open>(g1)|(g2)|(g3)\<close> is the triple of its groups. At one position
  the alternatives are tried in order; the one that matches fills its group, the other two
  groups are empty strings, as in the tuples \<open>findall\<close> returns.\<close>

type_synonym pattern = "re \<times> re \<times> re"
type_synonym groups = "str \<times> str \<times> str"

definition matched :: "str \<Rightarrow> str \<Rightarrow> str" where
  "matched s rest = take (length s - length rest) s"

definition match_here :: "pattern \<Rightarrow> str \<Rightarrow> (groups \<times> str) option" where
  "match_here p s =
     (case p of (g1, g2, g3) \<Rightarrow>
        (case matches g1 s of
           rest # _ \<Rightarrow> Some ((matched s rest, [], []), rest)
         | [] \<Rightarrow>
        (case matches g2 s of
           rest # _ \<Rightarrow> Some (([], matched s rest, []), rest)
         | [] \<Rightarrow>
        (case matches g3 s of
           rest # _ \<Rightarrow> Some (([], [], matched s rest), rest)
         | [] \<Rightarrow> None))))"

text \<open>\<open>pattern.findall(text)\<close>: scan from the left; where the pattern matches, emit the
  groups and go on behind the match; where it does not, move one character on. A match of
  no character would be emitted and the scan moved one character on; neither pattern of
  the module can match without a character (lemma \<open>match_here_words_re_shorter\<close>), so
  that branch only makes the function total.\<close>

function findall :: "pattern \<Rightarrow> str \<Rightarrow> groups list" where
  "findall p [] = (case match_here p [] of None \<Rightarrow> [] | Some (g, rest) \<Rightarrow> [g])"
| "findall p (c # cs) =
     (case match_here p (c # cs) of
        None \<Rightarrow> findall p cs
      | Some (g, rest) \<Rightarrow>
          if length rest < length (c # cs) then g # findall p rest else g # findall p cs)"
  by pat_completeness auto
termination
  by (relation "measure (\<lambda>(p, s). length s)") auto

section \<open>tokenizer\_utils.py\<close>

datatype error = ValueError | ImportError | NameError string | LibraryError

text \<open>\<open>_synoglyphs\<close> and \<open>SYNOGLYPH2ASCII\<close>: the dictionary comprehension turns the table
  of glyph lists round, a later pair overwriting an earlier one with the same key.
  39 is the apostrophe, 34 the double quote, 8217 the right single quotation mark, 8221
  and 8220 the right and left double quotation marks.\<close>

definition synoglyphs :: "(cp \<times> cp list) list" where
  "synoglyphs = [(39, [8217]), (34, [8221, 8220])]"

definition SYNOGLYPH2ASCII :: "cp \<rightharpoonup> cp" where
  "SYNOGLYPH2ASCII =
     fold (\<lambda>(g, asc) m. m(g \<mapsto> asc))
       (concat (map (\<lambda>(asc, glyphs). map (\<lambda>g. (g, asc)) glyphs) synoglyphs)) Map.empty"

definition LATIN_ALPHABET_BASIC :: "cset list" where
  "LATIN_ALPHABET_BASIC = [Range 65 90, Range 97 122]"

definition ACCENTED_CHARS :: "cset list" where
  "ACCENTED_CHARS = [Range 192 214, Range 216 246, Range 248 255]"

definition LATIN_CHARS_ALL :: "cset list" where
  "LATIN_CHARS_ALL = LATIN_ALPHABET_BASIC @ ACCENTED_CHARS"

text \<open>The patterns \<open>_WORDS_RE_EN\<close> and \<open>_WORDS_RE_ANY_LOCALE\<close>; 45 is the hyphen, 39 the
  apostrophe, 124 the pipe.\<close>

definition WORDS_RE_EN :: pattern where
  "WORDS_RE_EN =
     (Seq (Plus1 (In LATIN_ALPHABET_BASIC))
        (Star (Seq (Star (In (LATIN_ALPHABET_BASIC @ [Single 45, Single 39])))
                   (Plus1 (In LATIN_ALPHABET_BASIC)))),
      Seq (Lit 124) (Seq (Star (NotIn [Single 124])) (Lit 124)),
      Plus1 (NotIn (LATIN_ALPHABET_BASIC @ [Single 124])))"

definition WORDS_RE_ANY_LOCALE :: pattern where
  "WORDS_RE_ANY_LOCALE =
     (Seq (Plus1 (In LATIN_CHARS_ALL))
        (Star (Seq (Star (In (LATIN_CHARS_ALL @ [Single 45, Single 39])))
                   (Plus1 (In LATIN_CHARS_ALL)))),
      Seq (Lit 124) (Seq (Star (NotIn [Single 124])) (Lit 124)),
      Plus1 (NotIn (LATIN_CHARS_ALL @ [Single 124])))"

text \<open>The quote folding step of \<open>english_text_preprocessing\<close> (its third statement), and
  the function.\<close>

definition fold_quotes :: "str \<Rightarrow> str" where
  "fold_quotes text' =
     map (\<lambda>char. case SYNOGLYPH2ASCII char of None \<Rightarrow> char | Some asc \<Rightarrow> asc) text'"

definition english_text_preprocessing :: "unicode_db \<Rightarrow> str \<Rightarrow> bool \<Rightarrow> str" where
  "english_text_preprocessing U text' lower' =
     (let t1 = filter (\<lambda>char. \<not> category_is_Mn U char) (normalize_NFD U text');
          t2 = fold_quotes t1
      in if lower' then lower U t2 else t2)"

definition normalize_unicode_text :: "unicode_db \<Rightarrow> str \<Rightarrow> str" where
  "normalize_unicode_text U text' =
     (if \<not> is_normalized_NFC U text' then normalize_NFC U text' else text')"

definition any_locale_text_preprocessing :: "unicode_db \<Rightarrow> str \<Rightarrow> str" where
  "any_locale_text_preprocessing U text' =
     map (\<lambda>c. if c \<in> set [8217] then 39 else c) (normalize_unicode_text U text')"

text \<open>The loop of \<open>indic_syllable_text_processing\<close>, which \<open>generate_grapheme_clusters\<close>
  of the data preparation script repeats line for line: \<open>i\<close> is the index \<open>enumerate\<close>
  gives, the last two arguments are \<open>clusters\<close> and \<open>current_cluster\<close>.\<close>

definition skipped :: "unicode_db \<Rightarrow> cp \<Rightarrow> bool" where
  "skipped U char =
     (isdigit U char \<or> char \<in> set string_punctuation \<or> char \<in> set string_whitespace)"

fun cluster_loop ::
  "unicode_db \<Rightarrow> cp set \<Rightarrow> nat \<Rightarrow> str \<Rightarrow> str list \<Rightarrow> str \<Rightarrow> str list \<times> str" where
  "cluster_loop U lang_symbols i [] clusters current_cluster = (clusters, current_cluster)"
| "cluster_loop U lang_symbols i (char # rest) clusters current_cluster =
     (if skipped U char then cluster_loop U lang_symbols (i + 1) rest clusters current_cluster
      else if i = 0 then
        cluster_loop U lang_symbols (i + 1) rest clusters (current_cluster @ [char])
      else if char \<in> lang_symbols then
        cluster_loop U lang_symbols (i + 1) rest clusters (current_cluster @ [char])
      else
        cluster_loop U lang_symbols (i + 1) rest (clusters @ [current_cluster]) [char])"

definition generate_grapheme_clusters :: "unicode_db \<Rightarrow> str \<Rightarrow> cp set \<Rightarrow> str list" where
  "generate_grapheme_clusters U text' lang_symbols =
     (case cluster_loop U lang_symbols 0 text' [] [] of
        (clusters, current_cluster) \<Rightarrow> clusters @ [current_cluster])"

definition indic_syllable_text_processing :: "unicode_db \<Rightarrow> str \<Rightarrow> cp set \<Rightarrow> str list" where
  "indic_syllable_text_processing U text' lang_symbols =
     (case cluster_loop U lang_symbols 0 (any_locale_text_preprocessing U text') [] [] of
        (clusters, current_cluster) \<Rightarrow> clusters @ [current_cluster])"

text \<open>
  \<open>indic_syllable_text_processing_improved\<close>. The name \<open>syllabifier\<close> is bound only when
  the import at the head of the module succeeded: \<open>None\<close> is the unbound name, and reading
  it raises \<open>NameError\<close> with that name. A bound syllabifier is a function of the library
  that returns the syllables of a word or raises. The loop returns the exception that ended
  it, if one did, and \<open>syllables\<close> as it stood then; the handler turns a \<open>NameError\<close> for
  \<open>syllabifier\<close> into \<open>ImportError\<close>, lets a \<open>NameError\<close> for another name fall through to
  the \<open>return\<close>, and any other exception passes.
\<close>

type_synonym syllabifier = "(str \<Rightarrow> string \<Rightarrow> error + str list) option"

fun syllabify_loop ::
  "syllabifier \<Rightarrow> string \<Rightarrow> nat \<Rightarrow> nat \<Rightarrow> str list \<Rightarrow> str list \<Rightarrow> error option \<times> str list" where
  "syllabify_loop syl lang_id n i [] syllables = (None, syllables)"
| "syllabify_loop syl lang_id n i (word # rest) syllables =
     (case syl of
        None \<Rightarrow> (Some (NameError ''syllabifier''), syllables)
      | Some orthographic_syllabify_improved \<Rightarrow>
          (case orthographic_syllabify_improved word lang_id of
             Inl e \<Rightarrow> (Some e, syllables)
           | Inr s \<Rightarrow>
               syllabify_loop syl lang_id n (i + 1) rest
                 (syllables @ s @ (if int i \<noteq> int n - 1 then [[32]] else []))))"

definition indic_syllable_text_processing_improved ::
  "unicode_db \<Rightarrow> syllabifier \<Rightarrow> str \<Rightarrow> string \<Rightarrow> error + str list" where
  "indic_syllable_text_processing_improved U syl text' lang_id =
     (let words = split_ws U (any_locale_text_preprocessing U text') in
      case syllabify_loop syl lang_id (length words) 0 words [] of
        (None, syllables) \<Rightarrow> Inr syllables
      | (Some (NameError name), syllables) \<Rightarrow>
          if name = ''syllabifier'' then Inl ImportError else Inr syllables
      | (Some e, syllables) \<Rightarrow> Inl e)"

text \<open>\<open>_word_tokenize\<close>: the loop over the tuples, \<open>result\<close> as the last argument; 32 is
  the space.\<close>

type_synonym token = "str list \<times> bool"

fun word_tokenize_loop :: "unicode_db \<Rightarrow> bool \<Rightarrow> groups list \<Rightarrow> token list \<Rightarrow> error + token list" where
  "word_tokenize_loop U is_lower [] result = Inr result"
| "word_tokenize_loop U is_lower ((maybe_word, maybe_without_changes, maybe_punct) # words) result =
     (if maybe_word \<noteq> [] then
        (if is_lower
         then word_tokenize_loop U is_lower words (result @ [([lower U maybe_word], False)])
         else word_tokenize_loop U is_lower words (result @ [([maybe_word], False)]))
      else if maybe_punct \<noteq> [] then
        word_tokenize_loop U is_lower words (result @ [([maybe_punct], False)])
      else if maybe_without_changes \<noteq> [] then
        word_tokenize_loop U is_lower words
          (result @ [(split_sep 32 (strip_ends maybe_without_changes), True)])
      else Inl ValueError)"

definition word_tokenize :: "unicode_db \<Rightarrow> groups list \<Rightarrow> bool \<Rightarrow> error + token list" where
  "word_tokenize U words is_lower = word_tokenize_loop U is_lower words []"

definition english_word_tokenize :: "unicode_db \<Rightarrow> str \<Rightarrow> error + token list" where
  "english_word_tokenize U text' = word_tokenize U (findall WORDS_RE_EN text') True"

definition any_locale_word_tokenize :: "unicode_db \<Rightarrow> str \<Rightarrow> error + token list" where
  "any_locale_word_tokenize U text' = word_tokenize U (findall WORDS_RE_ANY_LOCALE text') False"

section \<open>Match texts and reconstructed text\<close>

text \<open>The text of one match: of the three groups of a tuple two are empty, so the match is
  their concatenation.\<close>

definition match_text :: "groups \<Rightarrow> str" where
  "match_text g = (case g of (w, u, p) \<Rightarrow> w @ u @ p)"

text \<open>A tuple in which exactly one of the three groups is not empty: exactly one
  alternative matched.\<close>

definition one_group_filled :: "groups \<Rightarrow> bool" where
  "one_group_filled g =
     (case g of (w, u, p) \<Rightarrow> length (filter (\<lambda>x. x \<noteq> []) [w, u, p]) = 1)"

text \<open>A pipe is closed by the next pipe after it, and the scan pairs pipes from the left, so
  a text with an odd number of pipes has one unclosed pipe, its last. This is the text
  without it.\<close>

definition without_unclosed_pipe :: "str \<Rightarrow> str" where
  "without_unclosed_pipe s =
     (if even (count_list s 124) then s else rev (remove1 124 (rev s)))"

text \<open>\<open>" ".join(pieces)\<close>, and the text a reader puts together again from a list of
  tokens: the pieces of each token joined by single spaces, the flag ignored.\<close>

fun join_sp :: "str list \<Rightarrow> str" where
  "join_sp [] = []"
| "join_sp [p] = p"
| "join_sp (p # q # ps) = p @ 32 # join_sp (q # ps)"

definition reconstruct :: "token list \<Rightarrow> str" where
  "reconstruct toks = concat (map (\<lambda>(pieces, protected). join_sp pieces) toks)"

text \<open>The characters the clusterer is to leave out, written out by their codes: the
  digits (\<open>0\<close> to \<open>9\<close>, and beyond ASCII what the database calls a digit), the ASCII
  punctuation characters and the ASCII whitespace characters.\<close>

definition dropped_char :: "unicode_db \<Rightarrow> cp \<Rightarrow> bool" where
  "dropped_char U c =
     ((48 \<le> c \<and> c \<le> 57) \<or> (128 \<le> c \<and> isdigit_tbl U c)
      \<or> (33 \<le> c \<and> c \<le> 47) \<or> (58 \<le> c \<and> c \<le> 64) \<or> (91 \<le> c \<and> c \<le> 96)
      \<or> (123 \<le> c \<and> c \<le> 126)
      \<or> (9 \<le> c \<and> c \<le> 13) \<or> c = 32)"

text \<open>The text with the ASCII letters outside protected spans in lower case. A span runs
  from a pipe to the next pipe after it and is copied as it stands, pipes included; every
  other character, an unclosed pipe too, goes through \<open>ascii_lower\<close>.\<close>

function lower_outside_spans :: "str \<Rightarrow> str" where
  "lower_outside_spans [] = []"
| "lower_outside_spans (c # cs) =
     (if c = 124 \<and> 124 \<in> set cs
      then 124 # takeWhile (\<lambda>x. x \<noteq> 124) cs
             @ 124 # lower_outside_spans (tl (dropWhile (\<lambda>x. x \<noteq> 124) cs))
      else ascii_lower c # lower_outside_spans cs)"
  by pat_completeness auto
termination
  by (relation "measure length")
    (auto simp: less_Suc_eq_le order_trans[OF diff_le_self length_dropWhile_le])

text \<open>A database for closed examples. It knows one composition: \<open>e\<close> (101) followed by the
  combining acute accent (769) is \<open>e\<close> with acute (233). Its tables are consulted on text
  beyond ASCII only.\<close>

fun compose_e_acute :: "str \<Rightarrow> str" where
  "compose_e_acute (a # b # rest) =
     (if a = 101 \<and> b = 769 then 233 # compose_e_acute rest else a # compose_e_acute (b # rest))"
| "compose_e_acute s = s"

definition sample_db :: unicode_db where
  "sample_db =
     \<lparr>nfc_tbl = compose_e_acute,
      is_nfc_tbl = (\<lambda>s. compose_e_acute s = s),
      nfd_tbl = (\<lambda>s. s),
      mn_tbl = (\<lambda>c. c = 769),
      isdigit_tbl = (\<lambda>c. False),
      isspace_tbl = (\<lambda>c. c = 160),
      lower_tbl = (\<lambda>s. s)\<rparr>"

section \<open>Notions used in the proofs\<close>

text \<open>The shape both patterns share, over the class \<open>L\<close> of letters.\<close>

definition words_re :: "cset list \<Rightarrow> pattern" where
  "words_re L =
     (Seq (Plus1 (In L))
        (Star (Seq (Star (In (L @ [Single 45, Single 39]))) (Plus1 (In L)))),
      Seq (Lit 124) (Seq (Star (NotIn [Single 124])) (Lit 124)),
      Plus1 (NotIn (L @ [Single 124])))"

text \<open>\<open>within P r\<close>: every character \<open>r\<close> can consume satisfies \<open>P\<close>. \<open>nonnull r\<close>: \<open>r\<close>
  consumes at least one character.\<close>

fun within :: "(cp \<Rightarrow> bool) \<Rightarrow> re \<Rightarrow> bool" where
  "within P (Lit x) = P x"
| "within P (In cl) = (\<forall>c. in_class cl c \<longrightarrow> P c)"
| "within P (NotIn cl) = (\<forall>c. \<not> in_class cl c \<longrightarrow> P c)"
| "within P (Seq a b) = (within P a \<and> within P b)"
| "within P (Star a) = within P a"

fun nonnull :: "re \<Rightarrow> bool" where
  "nonnull (Lit x) = True"
| "nonnull (In cl) = True"
| "nonnull (NotIn cl) = True"
| "nonnull (Seq a b) = (nonnull a \<or> nonnull b)"
| "nonnull (Star a) = False"

text \<open>The tuples the scan produces: a word that has no pipe, or a span between two pipes
  with no pipe inside, or a separator run that has no pipe.\<close>

fun wf_groups :: "cset list \<Rightarrow> groups \<Rightarrow> bool" where
  "wf_groups L (w, u, p) =
     ((w \<noteq> [] \<and> u = [] \<and> p = [] \<and> 124 \<notin> set w
         \<and> list_all (in_class (L @ [Single 45, Single 39])) w)
      \<or> (w = [] \<and> p = [] \<and> (\<exists>x. u = 124 # x @ [124] \<and> 124 \<notin> set x))
      \<or> (w = [] \<and> u = [] \<and> p \<noteq> [] \<and> 124 \<notin> set p
         \<and> list_all (\<lambda>c. \<not> in_class (L @ [Single 124]) c) p))"

text \<open>The token \<open>_word_tokenize\<close> makes of a tuple that is not empty.\<close>

fun token_of :: "unicode_db \<Rightarrow> bool \<Rightarrow> groups \<Rightarrow> token" where
  "token_of U is_lower (w, u, p) =
     (if w \<noteq> [] then ([if is_lower then lower U w else w], False)
      else if p \<noteq> [] then ([p], False)
      else (split_sep 32 (strip_ends u), True))"

section \<open>The matcher\<close>

declare matches.simps(5) [simp del]

lemma matches_Star:
  "x \<in> set (matches (Star a) s) \<longleftrightarrow>
     x = s \<or> (\<exists>y \<in> set (matches a s). length y < length s \<and> x \<in> set (matches (Star a) y))"
  by (subst matches.simps(5)) auto

lemma one_char_elem: "x \<in> set (one_char P s) \<Longrightarrow> \<exists>c. s = c # x \<and> P c"
  by (cases s) (auto split: if_splits)

lemma matches_within:
  "x \<in> set (matches r s) \<Longrightarrow> within P r \<Longrightarrow> \<exists>w. s = w @ x \<and> list_all P w"
proof (induction r s arbitrary: x rule: matches.induct)
  case (1 c s)
  then obtain d where "s = d # x" "d = c" by (auto dest: one_char_elem)
  with 1 have "s = [d] @ x \<and> list_all P [d]" by simp
  then show ?case by blast
next
  case (2 cl s)
  then obtain d where "s = d # x" "in_class cl d" by (auto dest: one_char_elem)
  with 2 have "s = [d] @ x \<and> list_all P [d]" by simp
  then show ?case by blast
next
  case (3 cl s)
  then obtain d where "s = d # x" "\<not> in_class cl d" by (auto dest: one_char_elem)
  with 3 have "s = [d] @ x \<and> list_all P [d]" by simp
  then show ?case by blast
next
  case (4 a b s)
  from 4(3) obtain y where y: "y \<in> set (matches a s)" "x \<in> set (matches b y)" by auto
  from 4(4) have wa: "within P a" and wb: "within P b" by simp_all
  from 4(1)[OF y(1) wa] obtain w1 where w1: "s = w1 @ y" "list_all P w1" by blast
  from 4(2)[OF y(1) y(2) wb] obtain w2 where w2: "y = w2 @ x" "list_all P w2" by blast
  from w1 w2 have "s = (w1 @ w2) @ x \<and> list_all P (w1 @ w2)" by simp
  then show ?case by blast
next
  case (5 a s)
  from 5(3) consider "x = s"
    | y where "y \<in> set (matches a s)" "length y < length s" "x \<in> set (matches (Star a) y)"
    by (subst (asm) matches_Star) blast
  then show ?case
  proof cases
    case 1
    then have "s = [] @ x \<and> list_all P []" by simp
    then show ?thesis by blast
  next
    case 2
    from 5(4) have wa: "within P a" by simp
    from 5(1)[OF 2(1) wa] obtain w1 where w1: "s = w1 @ y" "list_all P w1" by blast
    from 2(1,2) have "y \<in> set (filter (\<lambda>s'. length s' < length s) (matches a s))" by simp
    from 5(2)[OF this 2(3) 5(4)] obtain w2 where w2: "y = w2 @ x" "list_all P w2" by blast
    from w1 w2 have "s = (w1 @ w2) @ x \<and> list_all P (w1 @ w2)" by simp
    then show ?thesis by blast
  qed
qed

lemma within_True: "within (\<lambda>_. True) r"
  by (induction r) simp_all

lemma matches_suffix: "x \<in> set (matches r s) \<Longrightarrow> \<exists>w. s = w @ x"
  using matches_within[OF _ within_True] by blast

lemma matches_length_le: "x \<in> set (matches r s) \<Longrightarrow> length x \<le> length s"
  by (auto dest: matches_suffix)

lemma matches_nonnull:
  "x \<in> set (matches r s) \<Longrightarrow> nonnull r \<Longrightarrow> length x < length s"
proof (induction r arbitrary: x s)
  case (Seq a b)
  from Seq(3) obtain y where y: "y \<in> set (matches a s)" "x \<in> set (matches b y)" by auto
  from y have le: "length y \<le> length s" "length x \<le> length y"
    by (auto dest: matches_length_le)
  from Seq(4) have "nonnull a \<or> nonnull b" by simp
  then show ?case
  proof
    assume "nonnull a"
    from Seq(1)[OF y(1) this] le show ?thesis by simp
  next
    assume "nonnull b"
    from Seq(2)[OF y(2) this] le show ?thesis by simp
  qed
qed (auto dest: one_char_elem)

lemma matches_Star_nonempty: "matches (Star a) s \<noteq> []"
  by (subst matches.simps(5)) simp

lemma matches_Plus1_class:
  "matches (Plus1 (In cl)) (c # cs) \<noteq> [] \<longleftrightarrow> in_class cl c"
  "matches (Plus1 (NotIn cl)) (c # cs) \<noteq> [] \<longleftrightarrow> \<not> in_class cl c"
  by (simp_all add: Plus1_def matches_Star_nonempty)


lemma WORDS_RE_EN_shape: "WORDS_RE_EN = words_re LATIN_ALPHABET_BASIC"
  by (simp add: WORDS_RE_EN_def words_re_def)

lemma WORDS_RE_ANY_LOCALE_shape: "WORDS_RE_ANY_LOCALE = words_re LATIN_CHARS_ALL"
  by (simp add: WORDS_RE_ANY_LOCALE_def words_re_def)

lemma in_class_append: "in_class (A @ B) c \<longleftrightarrow> in_class A c \<or> in_class B c"
  by (simp add: in_class_def list_ex_iff) blast

lemma in_class_Single: "in_class [Single x] c \<longleftrightarrow> c = x"
  by (simp add: in_class_def)

lemma matched_append: "matched (w @ rest) rest = w"
  by (simp add: matched_def)

lemma concat_map_nonempty:
  "ys \<noteq> [] \<Longrightarrow> (\<And>y. f y \<noteq> []) \<Longrightarrow> concat (map f ys) \<noteq> []"
  by (cases ys) simp_all

lemma word_group_matches:
  "matches (Seq (Plus1 (In L)) (Star b)) (c # cs) \<noteq> [] \<longleftrightarrow> in_class L c"
proof (cases "in_class L c")
  case True
  then have "matches (Plus1 (In L)) (c # cs) \<noteq> []" by (simp add: matches_Plus1_class)
  then have "concat (map (matches (Star b)) (matches (Plus1 (In L)) (c # cs))) \<noteq> []"
    by (rule concat_map_nonempty) (rule matches_Star_nonempty)
  with True show ?thesis by simp
next
  case False
  then show ?thesis by (simp add: Plus1_def)
qed

lemma matches_Nil: "matches (Seq (Plus1 a) b) [] = []" if "nonnull a"
proof -
  have "matches a [] = []"
  proof (rule ccontr)
    assume "matches a [] \<noteq> []"
    then obtain x where "x \<in> set (matches a [])" by (cases "matches a []") auto
    from matches_nonnull[OF this that] show False by simp
  qed
  then show ?thesis by (simp add: Plus1_def)
qed

lemma until_pipe:
  "matches (Seq (Star (NotIn [Single 124])) (Lit 124)) cs =
     (if 124 \<in> set cs then [tl (dropWhile (\<lambda>x. x \<noteq> 124) cs)] else [])"
proof (induction cs)
  case Nil
  show ?case by (simp add: matches.simps(5))
next
  case (Cons d ds)
  show ?case
  proof (cases "d = 124")
    case True
    have "matches (Star (NotIn [Single 124])) (d # ds) = [d # ds]"
      using True by (subst matches.simps(5)) (simp add: in_class_Single)
    with True show ?thesis by simp
  next
    case False
    have "matches (Star (NotIn [Single 124])) (d # ds) =
            matches (Star (NotIn [Single 124])) ds @ [d # ds]"
      using False by (subst matches.simps(5)) (simp add: in_class_Single)
    with Cons False show ?thesis by simp
  qed
qed

lemma pipe_group_matches:
  "matches (Seq (Lit 124) (Seq (Star (NotIn [Single 124])) (Lit 124))) (c # cs) =
     (if c = 124 \<and> 124 \<in> set cs then [tl (dropWhile (\<lambda>x. x \<noteq> 124) cs)] else [])"
  using until_pipe[of cs] by simp

lemma pipe_span:
  fixes cs :: str
  assumes "124 \<in> set cs"
  shows "124 # cs = (124 # takeWhile (\<lambda>x. x \<noteq> 124) cs @ [124]) @ tl (dropWhile (\<lambda>x. x \<noteq> 124) cs)"
proof -
  from assms have "dropWhile (\<lambda>x. x \<noteq> 124) cs \<noteq> []" by (simp add: dropWhile_eq_Nil_conv)
  moreover have "hd (dropWhile (\<lambda>x. x \<noteq> 124) cs) = 124"
    using assms hd_dropWhile[of "\<lambda>x. x \<noteq> 124" cs] calculation by auto
  ultimately have "dropWhile (\<lambda>x. x \<noteq> 124) cs = 124 # tl (dropWhile (\<lambda>x. x \<noteq> 124) cs)"
    by (cases "dropWhile (\<lambda>x. x \<noteq> 124) cs") auto
  then have "cs = takeWhile (\<lambda>x. x \<noteq> 124) cs @ 124 # tl (dropWhile (\<lambda>x. x \<noteq> 124) cs)"
    using takeWhile_dropWhile_id[of "\<lambda>x. x \<noteq> 124" cs] by simp
  then show ?thesis by simp
qed

lemma match_here1:
  "matches g1 s = rest # alts \<Longrightarrow>
   match_here (g1, g2, g3) s = Some ((matched s rest, [], []), rest)"
  by (simp add: match_here_def)

lemma match_here2:
  "matches g1 s = [] \<Longrightarrow> matches g2 s = rest # alts \<Longrightarrow>
   match_here (g1, g2, g3) s = Some (([], matched s rest, []), rest)"
  by (simp add: match_here_def)

lemma match_here3:
  "matches g1 s = [] \<Longrightarrow> matches g2 s = [] \<Longrightarrow> matches g3 s = rest # alts \<Longrightarrow>
   match_here (g1, g2, g3) s = Some (([], [], matched s rest), rest)"
  by (simp add: match_here_def)

lemma match_here0:
  "matches g1 s = [] \<Longrightarrow> matches g2 s = [] \<Longrightarrow> matches g3 s = [] \<Longrightarrow>
   match_here (g1, g2, g3) s = None"
  by (simp add: match_here_def)

lemma match_here_words_re:
  assumes L: "\<not> in_class L 124"
  shows "(match_here (words_re L) (c # cs) = None \<and> c = 124 \<and> 124 \<notin> set cs)
       \<or> (\<exists>g rest. match_here (words_re L) (c # cs) = Some (g, rest) \<and> wf_groups L g
             \<and> c # cs = match_text g @ rest)"
proof -
  let ?W = "L @ [Single 45, Single 39]"
  let ?g1 = "Seq (Plus1 (In L)) (Star (Seq (Star (In ?W)) (Plus1 (In L))))"
  let ?g2 = "Seq (Lit 124) (Seq (Star (NotIn [Single 124])) (Lit 124))"
  let ?g3 = "Plus1 (NotIn (L @ [Single 124]))"
  consider (word) "in_class L c" | (pipe) "c = 124" | (sep) "\<not> in_class L c" "c \<noteq> 124"
    by blast
  then show ?thesis
  proof cases
    case word
    then obtain rest alts where m: "matches ?g1 (c # cs) = rest # alts"
      using word_group_matches[of L _ c cs] by (cases "matches ?g1 (c # cs)") auto
    then have el: "rest \<in> set (matches ?g1 (c # cs))" by simp
    have "within (in_class ?W) ?g1" by (simp add: Plus1_def in_class_append)
    from matches_within[OF el this] obtain w where w: "c # cs = w @ rest" "list_all (in_class ?W) w"
      by blast
    have "nonnull ?g1" by (simp add: Plus1_def)
    from matches_nonnull[OF el this] w(1) have "w \<noteq> []" by auto
    have "match_here (words_re L) (c # cs) = Some ((matched (c # cs) rest, [], []), rest)"
      unfolding words_re_def by (rule match_here1[OF m])
    also have "matched (c # cs) rest = w" using w(1) by (simp add: matched_append)
    finally have "match_here (words_re L) (c # cs) = Some ((w, [], []), rest)" .
    moreover have "124 \<notin> set w"
      using w(2) L by (auto simp: list_all_iff in_class_append in_class_def)
    then have "wf_groups L (w, [], [])" using w(2) \<open>w \<noteq> []\<close> by simp
    moreover have "c # cs = match_text (w, [], []) @ rest" using w(1) by (simp add: match_text_def)
    ultimately show ?thesis by blast
  next
    case pipe
    with L have g1: "matches ?g1 (c # cs) = []" using word_group_matches[of L _ c cs] by blast
    have g3: "matches ?g3 (c # cs) = []"
      using pipe by (simp add: Plus1_def in_class_append in_class_Single)
    show ?thesis
    proof (cases "124 \<in> set cs")
      case True
      let ?u = "124 # takeWhile (\<lambda>x. x \<noteq> 124) cs @ [124]"
      let ?rest = "tl (dropWhile (\<lambda>x. x \<noteq> 124) cs)"
      from pipe_span[OF True] have sp: "c # cs = ?u @ ?rest" using pipe by simp
      have g2: "matches ?g2 (c # cs) = [?rest]"
        using True pipe by (simp only: pipe_group_matches simp_thms if_True)
      have "match_here (words_re L) (c # cs) = Some (([], matched (c # cs) ?rest, []), ?rest)"
        unfolding words_re_def by (rule match_here2[OF g1 g2])
      also have "matched (c # cs) ?rest = ?u" by (subst sp) (rule matched_append)
      finally have "match_here (words_re L) (c # cs) = Some (([], ?u, []), ?rest)" .
      moreover have "wf_groups L ([], ?u, [])" by (auto dest: set_takeWhileD)
      moreover have "c # cs = match_text ([], ?u, []) @ ?rest"
        using sp by (simp add: match_text_def)
      ultimately show ?thesis by blast
    next
      case False
      then have g2: "matches ?g2 (c # cs) = []"
        by (simp only: pipe_group_matches simp_thms if_False)
      have "match_here (words_re L) (c # cs) = None"
        unfolding words_re_def by (rule match_here0[OF g1 g2 g3])
      with pipe False show ?thesis by simp
    qed
  next
    case sep
    then have g1: "matches ?g1 (c # cs) = []" using word_group_matches[of L _ c cs] by blast
    have g2: "matches ?g2 (c # cs) = []"
      using sep by (simp only: pipe_group_matches simp_thms if_False)
    from sep have "\<not> in_class (L @ [Single 124]) c" by (simp add: in_class_append in_class_Single)
    then obtain rest alts where m: "matches ?g3 (c # cs) = rest # alts"
      using matches_Plus1_class(2)[of "L @ [Single 124]" c cs] by (cases "matches ?g3 (c # cs)") auto
    then have el: "rest \<in> set (matches ?g3 (c # cs))" by simp
    have "within (\<lambda>c. \<not> in_class (L @ [Single 124]) c) ?g3" by (simp add: Plus1_def)
    from matches_within[OF el this] obtain w where
      w: "c # cs = w @ rest" "list_all (\<lambda>c. \<not> in_class (L @ [Single 124]) c) w" by blast
    have "nonnull ?g3" by (simp add: Plus1_def)
    from matches_nonnull[OF el this] w(1) have "w \<noteq> []" by auto
    have "match_here (words_re L) (c # cs) = Some (([], [], matched (c # cs) rest), rest)"
      unfolding words_re_def by (rule match_here3[OF g1 g2 m])
    also have "matched (c # cs) rest = w" using w(1) by (simp add: matched_append)
    finally have "match_here (words_re L) (c # cs) = Some (([], [], w), rest)" .
    moreover have "124 \<notin> set w"
      using w(2) by (auto simp: list_all_iff in_class_append in_class_Single)
    then have "wf_groups L ([], [], w)" using w(2) \<open>w \<noteq> []\<close> by simp
    moreover have "c # cs = match_text ([], [], w) @ rest" using w(1) by (simp add: match_text_def)
    ultimately show ?thesis by blast
  qed
qed

lemma match_here_words_re_Nil: "match_here (words_re L) [] = None"
  unfolding words_re_def by (rule match_here0) (simp_all add: matches_Nil Plus1_def)

lemma wf_groups_text_nonempty: "wf_groups L g \<Longrightarrow> match_text g \<noteq> []"
  by (cases g) (auto simp: match_text_def)

lemma findall_words_re_Nil: "findall (words_re L) [] = []"
  by (simp add: match_here_words_re_Nil)

lemma findall_words_re_step:
  assumes L: "\<not> in_class L 124"
  shows "(c = 124 \<and> 124 \<notin> set cs \<and> findall (words_re L) (c # cs) = findall (words_re L) cs)
       \<or> (\<exists>g rest. wf_groups L g \<and> c # cs = match_text g @ rest \<and> length rest < length (c # cs)
             \<and> findall (words_re L) (c # cs) = g # findall (words_re L) rest)"
  using match_here_words_re[OF L, of c cs]
proof (elim disjE conjE exE)
  assume "match_here (words_re L) (c # cs) = None" "c = 124" "124 \<notin> set cs"
  then show ?thesis by simp
next
  fix g rest
  assume m: "match_here (words_re L) (c # cs) = Some (g, rest)" and wf: "wf_groups L g"
    and eq: "c # cs = match_text g @ rest"
  from wf have "match_text g \<noteq> []" by (rule wf_groups_text_nonempty)
  then have "length rest < length (match_text g @ rest)" by simp
  with eq have len: "length rest < length (c # cs)" by simp
  with m have "findall (words_re L) (c # cs) = g # findall (words_re L) rest" by simp
  with wf eq len show ?thesis by blast
qed

lemma findall_wf:
  assumes L: "\<not> in_class L 124"
  shows "list_all (wf_groups L) (findall (words_re L) s)"
proof (induction s rule: length_induct)
  case (1 s)
  show ?case
  proof (cases s)
    case Nil
    then show ?thesis by (simp add: match_here_words_re_Nil)
  next
    case (Cons c cs)
    from findall_words_re_step[OF L, of c cs] show ?thesis
    proof (elim disjE conjE exE)
      assume "findall (words_re L) (c # cs) = findall (words_re L) cs"
      with 1 Cons show ?thesis by simp
    next
      fix g rest
      assume "wf_groups L g" "length rest < length (c # cs)"
        "findall (words_re L) (c # cs) = g # findall (words_re L) rest"
      with 1 Cons show ?thesis by simp
    qed
  qed
qed

lemma drop_last_append:
  "x \<in> set r \<Longrightarrow> rev (remove1 x (rev r @ rev w)) = w @ rev (remove1 x (rev r))"
  by (simp add: remove1_append)

lemma without_unclosed_pipe_append:
  assumes "even (count_list m 124)"
  shows "without_unclosed_pipe (m @ rest) = m @ without_unclosed_pipe rest"
proof (cases "even (count_list rest 124)")
  case True
  with assms show ?thesis by (simp add: without_unclosed_pipe_def)
next
  case False
  then have "count_list rest 124 \<noteq> 0" by (metis even_zero)
  then have "124 \<in> set rest" by (simp add: count_list_0_iff)
  with assms False show ?thesis by (simp add: without_unclosed_pipe_def drop_last_append)
qed

lemma wf_groups_even: "wf_groups L g \<Longrightarrow> even (count_list (match_text g) 124)"
  by (cases g) (auto simp: match_text_def count_list_0_iff[THEN iffD2])

lemma without_unclosed_pipe_single:
  "124 \<notin> set cs \<Longrightarrow> without_unclosed_pipe (124 # cs) = cs"
  by (simp add: without_unclosed_pipe_def count_list_0_iff[THEN iffD2] remove1_append)

lemma without_unclosed_pipe_none:
  "124 \<notin> set cs \<Longrightarrow> without_unclosed_pipe cs = cs"
  by (simp add: without_unclosed_pipe_def count_list_0_iff[THEN iffD2])

lemma findall_text:
  assumes L: "\<not> in_class L 124"
  shows "concat (map match_text (findall (words_re L) s)) = without_unclosed_pipe s"
proof (induction s rule: length_induct)
  case (1 s)
  show ?case
  proof (cases s)
    case Nil
    then show ?thesis by (simp add: match_here_words_re_Nil without_unclosed_pipe_def)
  next
    case (Cons c cs)
    from findall_words_re_step[OF L, of c cs] show ?thesis
    proof (elim disjE conjE exE)
      assume a: "c = 124" "124 \<notin> set cs"
        "findall (words_re L) (c # cs) = findall (words_re L) cs"
      from 1 Cons have "concat (map match_text (findall (words_re L) cs)) = without_unclosed_pipe cs"
        by simp
      with a Cons show ?thesis
        by (simp add: without_unclosed_pipe_single without_unclosed_pipe_none)
    next
      fix g rest
      assume a: "wf_groups L g" "c # cs = match_text g @ rest" "length rest < length (c # cs)"
        "findall (words_re L) (c # cs) = g # findall (words_re L) rest"
      from 1 Cons a(3) have
        "concat (map match_text (findall (words_re L) rest)) = without_unclosed_pipe rest"
        by simp
      with a Cons show ?thesis
        by (simp add: without_unclosed_pipe_append[OF wf_groups_even[OF a(1)], symmetric])
    qed
  qed
qed

lemma split_sep_nonempty: "split_sep sep s \<noteq> []"
  by (induction s) simp_all

lemma join_sp_Cons_Nil: "xs \<noteq> [] \<Longrightarrow> join_sp ([] # xs) = 32 # join_sp xs"
  by (cases xs) simp_all

lemma join_sp_Cons_hd: "xs \<noteq> [] \<Longrightarrow> join_sp ((c # hd xs) # tl xs) = c # join_sp xs"
  by (cases xs rule: join_sp.cases) simp_all

lemma join_split: "join_sp (split_sep 32 s) = s"
  by (induction s) (simp_all add: join_sp_Cons_Nil join_sp_Cons_hd split_sep_nonempty)

lemma word_tokenize_loop_ok:
  "list_all (\<lambda>g. g \<noteq> ([], [], [])) gs \<Longrightarrow>
   word_tokenize_loop U is_lower gs acc = Inr (acc @ map (token_of U is_lower) gs)"
proof (induction gs arbitrary: acc)
  case Nil
  show ?case by simp
next
  case (Cons g gs)
  obtain w u p where g: "g = (w, u, p)" by (cases g)
  from Cons.prems have rest: "list_all (\<lambda>g. g \<noteq> ([], [], [])) gs" and ne: "g \<noteq> ([], [], [])"
    by simp_all
  from ne g Cons.IH[OF rest] show ?case by auto
qed

lemma wf_groups_not_empty: "wf_groups L g \<Longrightarrow> g \<noteq> ([], [], [])"
  by (cases g) auto

lemma filter_remove1_same: "filter (\<lambda>c. c \<noteq> x) (remove1 x xs) = filter (\<lambda>c. c \<noteq> x) xs"
  by (induction xs) simp_all

lemma filter_without_unclosed_pipe:
  "filter (\<lambda>c. c \<noteq> 124) (without_unclosed_pipe s) = filter (\<lambda>c. c \<noteq> 124) s"
  by (simp add: without_unclosed_pipe_def filter_remove1_same flip: rev_filter)

lemma filter_id: "x \<notin> set xs \<Longrightarrow> filter (\<lambda>c. c \<noteq> x) xs = xs"
  by (induction xs) auto

lemma token_text_plain:
  "wf_groups L g \<Longrightarrow>
   join_sp (fst (token_of U False g)) = filter (\<lambda>c. c \<noteq> 124) (match_text g)"
  by (cases g) (auto simp: match_text_def strip_ends_def join_split filter_id)

lemma ascii_lower_idem: "ascii_lower (ascii_lower c) = ascii_lower c"
  by (simp add: ascii_lower_def)

lemma basic_word_isascii:
  "list_all (in_class (LATIN_ALPHABET_BASIC @ [Single 45, Single 39])) w \<Longrightarrow> isascii w"
  by (auto simp: isascii_def list_all_iff in_class_def LATIN_ALPHABET_BASIC_def)

lemma no_pipe_basic: "\<not> in_class LATIN_ALPHABET_BASIC 124"
  by (simp add: in_class_def LATIN_ALPHABET_BASIC_def)

lemma ascii_lower_pipe: "ascii_lower c = 124 \<longleftrightarrow> c = 124"
  by (simp add: ascii_lower_def)

lemma lower_outside_spans_plain:
  "124 \<notin> set m \<Longrightarrow>
   lower_outside_spans (m @ rest) = map ascii_lower m @ lower_outside_spans rest"
  by (induction m) auto

lemma lower_outside_spans_span:
  assumes "124 \<notin> set x"
  shows "lower_outside_spans (124 # x @ 124 # rest) = 124 # x @ 124 # lower_outside_spans rest"
proof -
  from assms have "takeWhile (\<lambda>c. c \<noteq> 124) (x @ 124 # rest) = x"
    by (induction x) auto
  moreover from assms have "dropWhile (\<lambda>c. c \<noteq> 124) (x @ 124 # rest) = 124 # rest"
    by (induction x) auto
  ultimately show ?thesis by simp
qed

lemma no_upper_outside_basic:
  "list_all (\<lambda>c. \<not> in_class (LATIN_ALPHABET_BASIC @ [Single 124]) c) p \<Longrightarrow>
   map ascii_lower p = p"
  by (induction p) (auto simp: in_class_def LATIN_ALPHABET_BASIC_def ascii_lower_def)

lemma filter_pipe_map_lower:
  "124 \<notin> set w \<Longrightarrow> filter (\<lambda>c. c \<noteq> 124) (map ascii_lower w) = map ascii_lower w"
  by (induction w) (auto simp: ascii_lower_pipe)

lemma token_text_lower:
  assumes "wf_groups LATIN_ALPHABET_BASIC g"
  shows "filter (\<lambda>c. c \<noteq> 124) (lower_outside_spans (match_text g @ rest)) =
         join_sp (fst (token_of U True g)) @ filter (\<lambda>c. c \<noteq> 124) (lower_outside_spans rest)"
proof -
  obtain w u p where g: "g = (w, u, p)" by (cases g)
  from assms g consider
      (word) "w \<noteq> []" "u = []" "p = []" "124 \<notin> set w"
        "list_all (in_class (LATIN_ALPHABET_BASIC @ [Single 45, Single 39])) w"
    | (span) x where "w = []" "p = []" "u = 124 # x @ [124]" "124 \<notin> set x"
    | (sep) "w = []" "u = []" "p \<noteq> []" "124 \<notin> set p"
        "list_all (\<lambda>c. \<not> in_class (LATIN_ALPHABET_BASIC @ [Single 124]) c) p"
    by auto
  then show ?thesis
  proof cases
    case word
    then show ?thesis
      using g by (simp add: match_text_def lower_outside_spans_plain filter_pipe_map_lower
          lower_def basic_word_isascii)
  next
    case span
    then show ?thesis
      using g lower_outside_spans_span[of x rest]
      by (simp add: match_text_def strip_ends_def join_split filter_id)
  next
    case sep
    then show ?thesis
      using g by (simp add: match_text_def lower_outside_spans_plain filter_pipe_map_lower
          no_upper_outside_basic filter_id)
  qed
qed

lemma lower_outside_spans_unclosed:
  "124 \<notin> set cs \<Longrightarrow>
   filter (\<lambda>c. c \<noteq> 124) (lower_outside_spans (124 # cs)) =
   filter (\<lambda>c. c \<noteq> 124) (lower_outside_spans cs)"
  by (simp add: ascii_lower_def)

lemma findall_lower_text:
  "concat (map (\<lambda>g. join_sp (fst (token_of U True g))) (findall (words_re LATIN_ALPHABET_BASIC) s))
     = filter (\<lambda>c. c \<noteq> 124) (lower_outside_spans s)"
proof (induction s rule: length_induct)
  case (1 s)
  show ?case
  proof (cases s)
    case Nil
    then show ?thesis by (simp add: match_here_words_re_Nil)
  next
    case (Cons c cs)
    from findall_words_re_step[OF no_pipe_basic, of c cs] show ?thesis
    proof (elim disjE conjE exE)
      assume a: "c = 124" "124 \<notin> set cs"
        "findall (words_re LATIN_ALPHABET_BASIC) (c # cs) = findall (words_re LATIN_ALPHABET_BASIC) cs"
      from 1 Cons have
        "concat (map (\<lambda>g. join_sp (fst (token_of U True g))) (findall (words_re LATIN_ALPHABET_BASIC) cs))
           = filter (\<lambda>c. c \<noteq> 124) (lower_outside_spans cs)"
        by simp
      with a Cons lower_outside_spans_unclosed[OF a(2)] show ?thesis by simp
    next
      fix g rest
      assume a: "wf_groups LATIN_ALPHABET_BASIC g" "c # cs = match_text g @ rest"
        "length rest < length (c # cs)"
        "findall (words_re LATIN_ALPHABET_BASIC) (c # cs) = g # findall (words_re LATIN_ALPHABET_BASIC) rest"
      from 1 Cons a(3) have
        "concat (map (\<lambda>g. join_sp (fst (token_of U True g))) (findall (words_re LATIN_ALPHABET_BASIC) rest))
           = filter (\<lambda>c. c \<noteq> 124) (lower_outside_spans rest)"
        by simp
      with a(4) Cons token_text_lower[OF a(1), of rest U] a(2) show ?thesis by simp
    qed
  qed
qed

lemma reconstruct_map:
  "reconstruct (map f gs) = concat (map (\<lambda>g. join_sp (fst (f g))) gs)"
  by (induction gs) (simp_all add: reconstruct_def split_beta)

lemma no_pipe_all: "\<not> in_class LATIN_CHARS_ALL 124"
  by (simp add: in_class_def LATIN_CHARS_ALL_def LATIN_ALPHABET_BASIC_def ACCENTED_CHARS_def)

lemma concat_map_cong_list_all:
  "list_all (\<lambda>g. f g = h g) gs \<Longrightarrow> concat (map f gs) = concat (map h gs)"
  by (induction gs) simp_all

lemma list_all_mono: "list_all P xs \<Longrightarrow> (\<And>x. P x \<Longrightarrow> Q x) \<Longrightarrow> list_all Q xs"
  by (induction xs) simp_all

lemma wf_groups_one_group_filled: "wf_groups L g \<Longrightarrow> one_group_filled g"
  by (cases g) (auto simp: one_group_filled_def)

lemma findall_one_group_filled:
  assumes "\<not> in_class L 124"
  shows "list_all one_group_filled (findall (words_re L) s)"
  by (rule list_all_mono[OF findall_wf[OF assms]]) (rule wf_groups_one_group_filled)

lemma match_here_words_re_shorter:
  assumes "\<not> in_class L 124" and "match_here (words_re L) s = Some (g, rest)"
  shows "length rest < length s"
proof (cases s)
  case Nil
  with assms(2) show ?thesis by (simp add: match_here_words_re_Nil)
next
  case (Cons c cs)
  from match_here_words_re[OF assms(1), of c cs] assms(2) Cons
  have wf: "wf_groups L g" and eq: "c # cs = match_text g @ rest" by auto
  from wf have "match_text g \<noteq> []" by (rule wf_groups_text_nonempty)
  then have "length rest < length (match_text g @ rest)" by simp
  with eq Cons show ?thesis by simp
qed

section \<open>The tokenizer\<close>

lemmas tokenizer_eval =
  codepoints_def WORDS_RE_EN_def WORDS_RE_ANY_LOCALE_def LATIN_ALPHABET_BASIC_def
  LATIN_CHARS_ALL_def ACCENTED_CHARS_def Plus1_def in_class_def match_here_def matched_def
  english_word_tokenize_def any_locale_word_tokenize_def word_tokenize_def lower_def isascii_def
  ascii_lower_def strip_ends_def matches.simps(5)

lemma hello_tokens:
  "english_word_tokenize U (codepoints ''Hello, |NVIDIA unchanged|!'') =
     Inr [([codepoints ''hello''], False), ([codepoints '', ''], False),
          ([codepoints ''NVIDIA'', codepoints ''unchanged''], True),
          ([codepoints ''!''], False)]"
  by (simp add: tokenizer_eval)

text \<open>
  C2, as amended. Tokenizing \<open>Hello, |NVIDIA unchanged|!\<close> with the English pattern and
  lowercasing gives four tokens: the comma and the space after it are one separator run
  and so one token, since the third alternative of the pattern takes a maximal run.
\<close>

theorem scenario_A_four_tokens:
  "english_word_tokenize U (codepoints ''Hello, |NVIDIA unchanged|!'') =
     Inr [([codepoints ''hello''], False), ([codepoints '', ''], False),
          ([codepoints ''NVIDIA'', codepoints ''unchanged''], True),
          ([codepoints ''!''], False)]"
  by (rule hello_tokens)

text \<open>C2 as stated fails: the result is not the list of five tokens in which the comma and
  the space are two tokens.\<close>

theorem scenario_A_not_five_tokens:
  "english_word_tokenize sample_db (codepoints ''Hello, |NVIDIA unchanged|!'') \<noteq>
     Inr [([codepoints ''hello''], False), ([codepoints '',''], False),
          ([codepoints '' ''], False),
          ([codepoints ''NVIDIA'', codepoints ''unchanged''], True),
          ([codepoints ''!''], False)]"
  using hello_tokens[of sample_db] by (simp add: codepoints_def)

text \<open>
  C3, as amended. For every text, with balanced pipes or not, both tokenizers return
  tokens (they never raise), and the pieces of the tokens, those of one token joined by
  single spaces and the tokens concatenated in order, are the text without its pipe
  characters: the delimiters of a protected span are stripped, and an unclosed pipe is
  skipped. Under \<open>english_word_tokenize\<close>, which lowercases words, the result is the text
  without its pipes in which the ASCII letters outside protected spans, and only those,
  are in lower case: a protected span keeps its case.
\<close>

theorem tokens_reconstruct_text_without_pipes:
  "(\<exists>toks. any_locale_word_tokenize U t = Inr toks
      \<and> reconstruct toks = filter (\<lambda>c. c \<noteq> 124) t)
   \<and> (\<exists>toks. english_word_tokenize U t = Inr toks
      \<and> reconstruct toks = filter (\<lambda>c. c \<noteq> 124) (lower_outside_spans t))"
proof
  let ?gs = "findall (words_re LATIN_CHARS_ALL) t"
  have wf: "list_all (wf_groups LATIN_CHARS_ALL) ?gs" by (rule findall_wf[OF no_pipe_all])
  then have "list_all (\<lambda>g. g \<noteq> ([], [], [])) ?gs"
    by (rule list_all_mono) (rule wf_groups_not_empty)
  then have run: "any_locale_word_tokenize U t = Inr (map (token_of U False) ?gs)"
    by (simp add: any_locale_word_tokenize_def word_tokenize_def WORDS_RE_ANY_LOCALE_shape
        word_tokenize_loop_ok)
  have "reconstruct (map (token_of U False) ?gs)
      = concat (map (\<lambda>g. join_sp (fst (token_of U False g))) ?gs)"
    by (rule reconstruct_map)
  also have "\<dots> = concat (map (\<lambda>g. filter (\<lambda>c. c \<noteq> 124) (match_text g)) ?gs)"
    by (rule concat_map_cong_list_all, rule list_all_mono[OF wf]) (rule token_text_plain)
  also have "\<dots> = filter (\<lambda>c. c \<noteq> 124) (concat (map match_text ?gs))"
    by (simp add: filter_concat comp_def)
  also have "\<dots> = filter (\<lambda>c. c \<noteq> 124) t"
    by (simp add: findall_text[OF no_pipe_all] filter_without_unclosed_pipe)
  finally show "\<exists>toks. any_locale_word_tokenize U t = Inr toks
      \<and> reconstruct toks = filter (\<lambda>c. c \<noteq> 124) t"
    using run by blast
next
  let ?gs = "findall (words_re LATIN_ALPHABET_BASIC) t"
  have wf: "list_all (wf_groups LATIN_ALPHABET_BASIC) ?gs" by (rule findall_wf[OF no_pipe_basic])
  then have "list_all (\<lambda>g. g \<noteq> ([], [], [])) ?gs"
    by (rule list_all_mono) (rule wf_groups_not_empty)
  then have run: "english_word_tokenize U t = Inr (map (token_of U True) ?gs)"
    by (simp add: english_word_tokenize_def word_tokenize_def WORDS_RE_EN_shape
        word_tokenize_loop_ok)
  have "reconstruct (map (token_of U True) ?gs)
      = concat (map (\<lambda>g. join_sp (fst (token_of U True g))) ?gs)"
    by (rule reconstruct_map)
  also have "\<dots> = filter (\<lambda>c. c \<noteq> 124) (lower_outside_spans t)"
    by (rule findall_lower_text)
  finally show "\<exists>toks. english_word_tokenize U t = Inr toks
      \<and> reconstruct toks = filter (\<lambda>c. c \<noteq> 124) (lower_outside_spans t)"
    using run by blast
qed

text \<open>C3 as stated fails on a text with balanced pipes: \<open>|a|\<close> gives the one protected
  token \<open>a\<close>, and putting the pieces together gives \<open>a\<close>, not \<open>|a|\<close>.\<close>

theorem pipes_are_not_reconstructed:
  "any_locale_word_tokenize sample_db (codepoints ''|a|'') = Inr [([codepoints ''a''], True)]
   \<and> reconstruct [([codepoints ''a''], True)] \<noteq> codepoints ''|a|''"
  by (simp add: tokenizer_eval reconstruct_def)

text \<open>
  C4, as amended. For every text the matches of either pattern, concatenated in order, are
  the text without its unclosed pipe: every character but a pipe that no later pipe
  closes belongs to exactly one match, and such a pipe belongs to none (no alternative
  takes it, and the scan moves past it). In every match exactly one alternative matched.
\<close>

theorem matches_cover_text_but_unclosed_pipe:
  "concat (map match_text (findall WORDS_RE_EN t)) = without_unclosed_pipe t
   \<and> concat (map match_text (findall WORDS_RE_ANY_LOCALE t)) = without_unclosed_pipe t
   \<and> list_all one_group_filled (findall WORDS_RE_EN t)
   \<and> list_all one_group_filled (findall WORDS_RE_ANY_LOCALE t)"
  by (simp add: WORDS_RE_EN_shape WORDS_RE_ANY_LOCALE_shape findall_text
      findall_one_group_filled no_pipe_basic no_pipe_all)

text \<open>C4 as stated fails: in \<open>a|b\<close> the pipe is in no match and in no token.\<close>

theorem unclosed_pipe_is_dropped:
  "findall WORDS_RE_ANY_LOCALE (codepoints ''a|b'') =
     [(codepoints ''a'', [], []), (codepoints ''b'', [], [])]
   \<and> any_locale_word_tokenize sample_db (codepoints ''a|b'') =
     Inr [([codepoints ''a''], False), ([codepoints ''b''], False)]
   \<and> concat (map match_text (findall WORDS_RE_ANY_LOCALE (codepoints ''a|b''))) \<noteq>
     codepoints ''a|b''"
  by (simp add: tokenizer_eval match_text_def)

lemma word_tokenize_loop_empty_tuple:
  "word_tokenize_loop U is_lower (pre @ ([], [], []) # post) acc = Inl ValueError"
proof (induction pre arbitrary: acc)
  case Nil
  show ?case by simp
next
  case (Cons g pre)
  obtain w u p where "g = (w, u, p)" by (cases g)
  with Cons show ?case by (cases is_lower) simp_all
qed

text \<open>
  C8. A tuple whose three groups are all empty, at any place in the list of matches, makes
  \<open>_word_tokenize\<close> raise \<open>ValueError\<close> (the error the specification calls InvalidPattern):
  no token list is returned, whatever stands before or after the tuple.
\<close>

theorem empty_match_raises_ValueError:
  "word_tokenize U (pre @ ([], [], []) # post) is_lower = Inl ValueError"
  by (simp add: word_tokenize_def word_tokenize_loop_empty_tuple)

lemma split_sep_length: "length (split_sep sep s) = Suc (count_list s sep)"
  by (induction s) (simp_all add: split_sep_nonempty)

text \<open>
  C10. A protected span is split at every single space and no piece is dropped: \<open>||\<close>
  gives the one empty piece, \<open>|a  b|\<close> gives \<open>a\<close>, the empty piece and \<open>b\<close>, and in general
  the span \<open>|x|\<close> gives one piece more than \<open>x\<close> has spaces.
\<close>

theorem protected_token_keeps_empty_pieces:
  "any_locale_word_tokenize U (codepoints ''||'') = Inr [([[]], True)]
   \<and> any_locale_word_tokenize U (codepoints ''|a  b|'') =
       Inr [([codepoints ''a'', [], codepoints ''b''], True)]
   \<and> english_word_tokenize U (codepoints ''||'') = Inr [([[]], True)]
   \<and> english_word_tokenize U (codepoints ''|a  b|'') =
       Inr [([codepoints ''a'', [], codepoints ''b''], True)]
   \<and> word_tokenize U [([], 124 # x @ [124], [])] is_lower = Inr [(split_sep 32 x, True)]
   \<and> length (split_sep 32 x) = Suc (count_list x 32)"
proof -
  have "word_tokenize U [([], 124 # x @ [124], [])] is_lower = Inr [(split_sep 32 x, True)]"
    by (simp add: word_tokenize_def strip_ends_def)
  moreover have "any_locale_word_tokenize U (codepoints ''||'') = Inr [([[]], True)]"
    by (simp add: tokenizer_eval)
  moreover have "any_locale_word_tokenize U (codepoints ''|a  b|'') =
       Inr [([codepoints ''a'', [], codepoints ''b''], True)]"
    by (simp add: tokenizer_eval)
  moreover have "english_word_tokenize U (codepoints ''||'') = Inr [([[]], True)]"
    by (simp add: tokenizer_eval)
  moreover have "english_word_tokenize U (codepoints ''|a  b|'') =
       Inr [([codepoints ''a'', [], codepoints ''b''], True)]"
    by (simp add: tokenizer_eval)
  ultimately show ?thesis by (simp add: split_sep_length)
qed

section \<open>Preprocessing\<close>

lemma SYNOGLYPH2ASCII_eval:
  "SYNOGLYPH2ASCII c =
     (if c = 8217 then Some 39 else if c = 8221 \<or> c = 8220 then Some 34 else None)"
  by (simp add: SYNOGLYPH2ASCII_def synoglyphs_def)

text \<open>
  C9. Quote folding maps the right single quotation mark (8217) to the apostrophe (39),
  the left and right double quotation marks (8220, 8221) to the straight double quote
  (34), and every other character to itself, place by place; the text
  \<open>It\<close>, 8217, \<open>s a \<close>, 8220, \<open>test\<close>, 8221 becomes \<open>It\<close>, 39, \<open>s a \<close>, 34, \<open>test\<close>, 34.
\<close>

theorem fold_quotes_replaces_curly_quotes:
  "fold_quotes t =
     map (\<lambda>c. if c = 8217 then 39 else if c = 8220 \<or> c = 8221 then 34 else c) t
   \<and> fold_quotes (codepoints ''It'' @ [8217] @ codepoints ''s a '' @ [8220]
         @ codepoints ''test'' @ [8221])
     = codepoints ''It'' @ [39] @ codepoints ''s a '' @ [34] @ codepoints ''test'' @ [34]"
  by (auto simp: fold_quotes_def SYNOGLYPH2ASCII_eval codepoints_def)

text \<open>
  C6. \<open>normalize_unicode_text\<close> is idempotent, and it leaves a text that is in NFC form
  as it is. The function calls \<open>unicodedata\<close> of the standard library; what it needs of it
  is that the NFC form of a text is in NFC form, which is the hypothesis.
\<close>

theorem normalize_unicode_text_idempotent:
  assumes "is_normalized_NFC U (normalize_NFC U t)"
  shows "normalize_unicode_text U (normalize_unicode_text U t) = normalize_unicode_text U t
       \<and> (is_normalized_NFC U t \<longrightarrow> normalize_unicode_text U t = t)"
  using assms by (simp add: normalize_unicode_text_def)

theorem normalize_unicode_text_idempotent_witness:
  "is_normalized_NFC sample_db (normalize_NFC sample_db [101, 769])
   \<and> \<not> is_normalized_NFC sample_db [101, 769]
   \<and> normalize_unicode_text sample_db [101, 769] = [233]
   \<and> normalize_unicode_text sample_db (normalize_unicode_text sample_db [101, 769]) =
       normalize_unicode_text sample_db [101, 769]
   \<and> is_normalized_NFC sample_db (normalize_NFC sample_db [233])
   \<and> is_normalized_NFC sample_db [233]
   \<and> normalize_unicode_text sample_db [233] = [233]"
proof -
  have h1: "is_normalized_NFC sample_db (normalize_NFC sample_db [101, 769])"
    by (simp add: is_normalized_NFC_def normalize_NFC_def isascii_def sample_db_def)
  have h2: "is_normalized_NFC sample_db (normalize_NFC sample_db [233])"
    by (simp add: is_normalized_NFC_def normalize_NFC_def isascii_def sample_db_def)
  have n1: "\<not> is_normalized_NFC sample_db [101, 769]"
    by (simp add: is_normalized_NFC_def isascii_def sample_db_def)
  have n2: "is_normalized_NFC sample_db [233]"
    by (simp add: is_normalized_NFC_def isascii_def sample_db_def)
  have v: "normalize_unicode_text sample_db [101, 769] = [233]"
    by (simp add: normalize_unicode_text_def is_normalized_NFC_def normalize_NFC_def
        isascii_def sample_db_def)
  from normalize_unicode_text_idempotent[OF h1]
  have i1: "normalize_unicode_text sample_db (normalize_unicode_text sample_db [101, 769]) =
       normalize_unicode_text sample_db [101, 769]" by blast
  from normalize_unicode_text_idempotent[OF h2] n2
  have i2: "normalize_unicode_text sample_db [233] = [233]" by blast
  from h1 h2 n1 n2 v i1 i2 show ?thesis by blast
qed

section \<open>The clusterers\<close>

lemma cluster_loop_concat:
  "cluster_loop U syms i t cl cur = (cl', cur') \<Longrightarrow>
   concat cl' @ cur' = concat cl @ cur @ filter (\<lambda>c. \<not> skipped U c) t"
  by (induction t arbitrary: i cl cur) (auto split: if_splits)

lemma cluster_loop_nonempty:
  "cluster_loop U syms i t cl cur = (cl', cur') \<Longrightarrow> cur \<noteq> [] \<Longrightarrow>
   list_all (\<lambda>c. c \<noteq> []) cl \<Longrightarrow> cur' \<noteq> [] \<and> list_all (\<lambda>c. c \<noteq> []) cl'"
  by (induction t arbitrary: i cl cur) (auto split: if_splits)

lemma clusters_nonempty_after_retained_first:
  "\<not> skipped U c \<Longrightarrow> list_all (\<lambda>x. x \<noteq> []) (generate_grapheme_clusters U (c # t) syms)"
proof -
  assume c: "\<not> skipped U c"
  obtain cl' cur' where r: "cluster_loop U syms (Suc 0) t [] [c] = (cl', cur')"
    by (cases "cluster_loop U syms (Suc 0) t [] [c]")
  from cluster_loop_nonempty[OF r] have "cur' \<noteq> [] \<and> list_all (\<lambda>c. c \<noteq> []) cl'" by simp
  with c r show ?thesis by (simp add: generate_grapheme_clusters_def)
qed

lemma clusters_concat_skipped:
  "concat (generate_grapheme_clusters U t syms) = filter (\<lambda>c. \<not> skipped U c) t
   \<and> concat (indic_syllable_text_processing U t syms) =
       filter (\<lambda>c. \<not> skipped U c) (any_locale_text_preprocessing U t)"
proof
  obtain cl cur where r: "cluster_loop U syms 0 t [] [] = (cl, cur)"
    by (cases "cluster_loop U syms 0 t [] []")
  from cluster_loop_concat[OF r] r
  show "concat (generate_grapheme_clusters U t syms) = filter (\<lambda>c. \<not> skipped U c) t"
    by (simp add: generate_grapheme_clusters_def)
next
  let ?t = "any_locale_text_preprocessing U t"
  obtain cl cur where r: "cluster_loop U syms 0 ?t [] [] = (cl, cur)"
    by (cases "cluster_loop U syms 0 ?t [] []")
  from cluster_loop_concat[OF r] r
  show "concat (indic_syllable_text_processing U t syms) = filter (\<lambda>c. \<not> skipped U c) ?t"
    by (simp add: indic_syllable_text_processing_def)
qed

lemma skipped_iff_dropped_char: "skipped U c \<longleftrightarrow> dropped_char U c"
proof (cases "c < 128")
  case True
  have "c \<in> set string_punctuation \<longleftrightarrow>
          (33 \<le> c \<and> c \<le> 47) \<or> (58 \<le> c \<and> c \<le> 64) \<or> (91 \<le> c \<and> c \<le> 96) \<or> (123 \<le> c \<and> c \<le> 126)"
    unfolding string_punctuation_def by (simp only: set_simps insert_iff empty_iff) arith
  moreover have "c \<in> set string_whitespace \<longleftrightarrow> (9 \<le> c \<and> c \<le> 13) \<or> c = 32"
    unfolding string_whitespace_def by (simp only: set_simps insert_iff empty_iff) arith
  ultimately show ?thesis using True by (simp add: skipped_def dropped_char_def isdigit_def)
next
  case False
  then have "c \<notin> set string_punctuation" "c \<notin> set string_whitespace"
    by (auto simp: string_punctuation_def string_whitespace_def)
  with False show ?thesis by (simp add: skipped_def dropped_char_def isdigit_def)
qed

text \<open>
  C5, as amended. For every text and every set of combining symbols, the clusters of the
  heuristic clusterer, concatenated from left to right, are the text the loop runs over
  without the characters that are digits, ASCII punctuation (\<open>string.punctuation\<close>: 33 to
  47, 58 to 64, 91 to 96, 123 to 126) or ASCII whitespace (\<open>string.whitespace\<close>: 9 to 13
  and 32); every other character is kept, punctuation and whitespace beyond ASCII too.
  For \<open>generate_grapheme_clusters\<close> the loop runs over the input; for
  \<open>indic_syllable_text_processing\<close> it runs over the NFC form of the input in which the
  right single quotation mark (8217) is replaced by the apostrophe (39).
\<close>

theorem clusters_concat_is_text_minus_ascii_classes:
  "concat (generate_grapheme_clusters U t syms) = filter (\<lambda>c. \<not> dropped_char U c) t
   \<and> concat (indic_syllable_text_processing U t syms) =
       filter (\<lambda>c. \<not> dropped_char U c)
         (map (\<lambda>c. if c = 8217 then 39 else c)
            (if is_normalized_NFC U t then t else normalize_NFC U t))"
proof -
  have pre: "any_locale_text_preprocessing U t =
      map (\<lambda>c. if c = 8217 then 39 else c)
        (if is_normalized_NFC U t then t else normalize_NFC U t)"
    by (simp add: any_locale_text_preprocessing_def normalize_unicode_text_def)
  have flt: "\<And>s. filter (\<lambda>c. \<not> skipped U c) s = filter (\<lambda>c. \<not> dropped_char U c) s"
    by (simp add: skipped_iff_dropped_char)
  from clusters_concat_skipped[of U t syms] show ?thesis
    unfolding flt pre .
qed

text \<open>C5 as stated fails. The input \<open>e\<close> followed by the combining acute accent (101, 769)
  has no digit, punctuation or whitespace, yet \<open>indic_syllable_text_processing\<close> returns
  the one cluster \<open>e\<close> with acute (233), which is not the input: the loop runs over the
  NFC form. And the no-break space (160), a whitespace character that is not in
  \<open>string.whitespace\<close>, is not removed.\<close>

theorem clusters_are_not_the_filtered_input:
  "indic_syllable_text_processing sample_db [101, 769] {} = [[233]]
   \<and> filter (\<lambda>c. \<not> (isdigit sample_db c \<or> isspace sample_db c
          \<or> c \<in> set string_punctuation)) [101, 769] = [101, 769]
   \<and> concat (indic_syllable_text_processing sample_db [101, 769] {}) \<noteq> [101, 769]
   \<and> isspace sample_db 160
   \<and> concat (generate_grapheme_clusters sample_db [97, 160, 98] {}) = [97, 160, 98]"
  by (simp add: generate_grapheme_clusters_def indic_syllable_text_processing_def
      any_locale_text_preprocessing_def normalize_unicode_text_def is_normalized_NFC_def
      normalize_NFC_def isascii_def skipped_def isdigit_def isspace_def string_punctuation_def
      string_whitespace_def sample_db_def)

text \<open>
  C1, where the code departs from it. The heuristic clusterer returns an empty cluster for
  the empty text, and whenever the first character of the text is skipped and the first
  retained character is no combining symbol: the test \<open>i == 0\<close> looks at the first
  character of the text, not at the first retained one. (When the first character is
  retained no cluster is empty: lemma \<open>clusters_nonempty_after_retained_first\<close>.)
\<close>

theorem heuristic_clusterer_emits_empty_cluster:
  "generate_grapheme_clusters U [] syms = [[]]
   \<and> generate_grapheme_clusters U (codepoints '' a'') {} = [[], codepoints ''a'']
   \<and> indic_syllable_text_processing U (codepoints ''1a'') {} = [[], codepoints ''a'']"
  by (simp add: generate_grapheme_clusters_def indic_syllable_text_processing_def
      any_locale_text_preprocessing_def normalize_unicode_text_def is_normalized_NFC_def
      isascii_def skipped_def isdigit_def string_punctuation_def string_whitespace_def
      codepoints_def)

lemma syllabify_loop_unbound:
  "syllabify_loop None lang_id n i words syllables =
     (if words = [] then (None, syllables) else (Some (NameError ''syllabifier''), syllables))"
  by (cases words) simp_all

text \<open>
  C7, where the code departs from it. With the library not importable the function raises
  \<open>ImportError\<close> only when the preprocessed text has a word; for a text without words
  (empty, or whitespace only) the loop body never reads the unbound name and the function
  returns the empty list.
\<close>

theorem improved_without_library:
  "indic_syllable_text_processing_improved U None t lang_id =
     (if split_ws U (any_locale_text_preprocessing U t) = [] then Inr [] else Inl ImportError)
   \<and> indic_syllable_text_processing_improved U None [] lang_id = Inr []
   \<and> indic_syllable_text_processing_improved U None (codepoints ''  '') lang_id = Inr []"
  by (simp add: indic_syllable_text_processing_improved_def syllabify_loop_unbound
      any_locale_text_preprocessing_def normalize_unicode_text_def is_normalized_NFC_def
      isascii_def split_ws_def isspace_def codepoints_def)

end
